theory Spec2Isabelle
  imports Main "HOL-Library.Sublist" "HOL-Library.Multiset"
begin

section \<open>Strings and exceptions\<close>

text \<open>
  Python strings are modelled as \<^typ>\<open>string\<close>, a character being a code point below 256.
  The exceptions of the program are values; a function that may raise returns
  \<open>exn + 'a\<close>, with \<open>Inl\<close> for the exception.
\<close>

datatype exn = ValueError | RuntimeError | KeyError

definition startswith :: "string \<Rightarrow> string \<Rightarrow> bool" where
  "startswith s p = prefix p s"

definition endswith :: "string \<Rightarrow> string \<Rightarrow> bool" where
  "endswith s p = suffix p s"

definition rstrip :: "char \<Rightarrow> string \<Rightarrow> string" where
  "rstrip c s = rev (dropWhile (\<lambda>x. x = c) (rev s))"

definition lstrip :: "char \<Rightarrow> string \<Rightarrow> string" where
  "lstrip c s = dropWhile (\<lambda>x. x = c) s"

text \<open>\<open>s.split(c)\<close> for a one-character separator: the list of the pieces, never empty.\<close>

fun split_on :: "char \<Rightarrow> string \<Rightarrow> string list" where
  "split_on c [] = [[]]"
| "split_on c (x # xs) =
     (if x = c then [] # split_on c xs
      else (case split_on c xs of [] \<Rightarrow> [[x]] | p # ps \<Rightarrow> (x # p) # ps))"

text \<open>\<open>c.join(parts)\<close>.\<close>

fun join_with :: "char \<Rightarrow> string list \<Rightarrow> string" where
  "join_with c [] = []"
| "join_with c [p] = p"
| "join_with c (p # q # ps) = p @ c # join_with c (q # ps)"

section \<open>The URL functions of the standard library\<close>

text \<open>
  The scraper parses and rebuilds URLs with \<open>urlparse\<close>, \<open>urlunparse\<close> and \<open>urljoin\<close> of
  \<open>urllib.parse\<close>. They are modelled after CPython 3.11.10, on \<open>str\<close> arguments.
  Two checks of \<open>urlsplit\<close> are outside the model's strings:
  \<^item> \<open>_check_bracketed_host\<close> validates the text between \<open>[\<close> and \<open>]\<close> with the
    \<open>ipaddress\<close> module and a regular expression; the model takes its verdict as the
    parameter \<open>bracketed_host_ok\<close>;
  \<^item> \<open>_checknetloc\<close> rejects a non-ASCII netloc whose NFKC form contains one of
    \<open>/?#@:\<close>; no code point below 256 has such a form, so the check always passes on the
    model's strings.
\<close>

definition uses_relative :: "string list" where
  "uses_relative = [[], ''ftp'', ''http'', ''gopher'', ''nntp'', ''imap'',
     ''wais'', ''file'', ''https'', ''shttp'', ''mms'',
     ''prospero'', ''rtsp'', ''rtsps'', ''rtspu'', ''sftp'',
     ''svn'', ''svn+ssh'', ''ws'', ''wss'']"

definition uses_netloc :: "string list" where
  "uses_netloc = [[], ''ftp'', ''http'', ''gopher'', ''nntp'', ''telnet'',
     ''imap'', ''wais'', ''file'', ''mms'', ''https'', ''shttp'',
     ''snews'', ''prospero'', ''rtsp'', ''rtsps'', ''rtspu'', ''rsync'',
     ''svn'', ''svn+ssh'', ''sftp'', ''nfs'', ''git'', ''git+ssh'',
     ''ws'', ''wss'']"

definition uses_params :: "string list" where
  "uses_params = [[], ''ftp'', ''hdl'', ''prospero'', ''http'', ''imap'',
     ''https'', ''shttp'', ''rtsp'', ''rtsps'', ''rtspu'', ''sip'',
     ''sips'', ''mms'', ''sftp'', ''tel'']"

definition scheme_chars :: string where
  "scheme_chars = ''abcdefghijklmnopqrstuvwxyzABCDEFGHIJKLMNOPQRSTUVWXYZ0123456789+-.''"

text \<open>\<open>c.isascii() and c.isalpha()\<close>.\<close>

definition ascii_alpha :: "char \<Rightarrow> bool" where
  "ascii_alpha c = (c \<in> set ''abcdefghijklmnopqrstuvwxyzABCDEFGHIJKLMNOPQRSTUVWXYZ'')"

text \<open>\<open>str.lower\<close> on one character; \<open>urlsplit\<close> applies it to scheme characters only.\<close>

definition lower_char :: "char \<Rightarrow> char" where
  "lower_char c =
     (let n = (of_char c :: nat) in if 65 \<le> n \<and> n \<le> 90 then char_of (n + 32) else c)"

text \<open>Membership in \<open>_WHATWG_C0_CONTROL_OR_SPACE\<close>: the code points 0 to 32.\<close>

definition whatwg_c0_control_or_space :: "char \<Rightarrow> bool" where
  "whatwg_c0_control_or_space c = ((of_char c :: nat) \<le> 32)"

text \<open>Membership in \<open>_UNSAFE_URL_BYTES_TO_REMOVE\<close>: tab, carriage return, newline.\<close>

definition unsafe_url_byte :: "char \<Rightarrow> bool" where
  "unsafe_url_byte c = (c = CHR 0x09 \<or> c = CHR 0x0D \<or> c = CHR 0x0A)"

text \<open>
  \<open>_splitnetloc(url, start)\<close>: the netloc runs from \<open>start\<close> to the first of \<open>/\<close>,
  \<open>?\<close>, \<open>#\<close> or to the end.
\<close>

definition splitnetloc :: "string \<Rightarrow> nat \<Rightarrow> string \<times> string" where
  "splitnetloc url start =
     (let dom = takeWhile (\<lambda>c. c \<notin> set ''/?#'') (drop start url)
      in (dom, drop (start + length dom) url))"

text \<open>\<open>netloc.partition('[')[2].partition(']')[0]\<close>.\<close>

definition bracketed_host :: "string \<Rightarrow> string" where
  "bracketed_host netloc =
     takeWhile (\<lambda>c. c \<noteq> CHR '']'') (drop 1 (dropWhile (\<lambda>c. c \<noteq> CHR ''['') netloc))"

text \<open>
  The end of \<open>urlsplit\<close>: the fragment is cut at the first \<open>#\<close>, then the query at the
  first \<open>?\<close> of what is left. The result is (path, query, fragment).
\<close>

definition split_query_fragment :: "string \<Rightarrow> string \<times> string \<times> string" where
  "split_query_fragment url =
     (let (url1, fragment) =
            (if CHR ''#'' \<in> set url
             then (takeWhile (\<lambda>c. c \<noteq> CHR ''#'') url, drop 1 (dropWhile (\<lambda>c. c \<noteq> CHR ''#'') url))
             else (url, []));
          (url2, query) =
            (if CHR ''?'' \<in> set url1
             then (takeWhile (\<lambda>c. c \<noteq> CHR ''?'') url1, drop 1 (dropWhile (\<lambda>c. c \<noteq> CHR ''?'') url1))
             else (url1, []))
      in (url2, query, fragment))"

text \<open>
  \<open>urlsplit(url, scheme)\<close>, with \<open>allow_fragments\<close> true. The result is the 5-tuple
  (scheme, netloc, path, query, fragment), or \<open>ValueError\<close>.
\<close>

definition urlsplit ::
  "(string \<Rightarrow> bool) \<Rightarrow> string \<Rightarrow> string \<Rightarrow> exn + (string \<times> string \<times> string \<times> string \<times> string)" where
  "urlsplit bracketed_host_ok url0 scheme0 =
     (let url1 = filter (\<lambda>c. \<not> unsafe_url_byte c) (dropWhile whatwg_c0_control_or_space url0);
          scheme1 = filter (\<lambda>c. \<not> unsafe_url_byte c)
                      (rev (dropWhile whatwg_c0_control_or_space
                         (rev (dropWhile whatwg_c0_control_or_space scheme0))));
          pre = takeWhile (\<lambda>c. c \<noteq> CHR '':'') url1;
          found = (CHR '':'' \<in> set url1 \<and> pre \<noteq> [] \<and> ascii_alpha (hd url1)
                     \<and> list_all (\<lambda>c. c \<in> set scheme_chars) pre);
          scheme = (if found then map lower_char pre else scheme1);
          url2 = (if found then drop (Suc (length pre)) url1 else url1)
      in if take 2 url2 = ''//'' then
           (case splitnetloc url2 2 of (netloc, url3) \<Rightarrow>
              if (CHR ''['' \<in> set netloc \<and> CHR '']'' \<notin> set netloc) \<or>
                 (CHR '']'' \<in> set netloc \<and> CHR ''['' \<notin> set netloc)
              then Inl ValueError
              else if CHR ''['' \<in> set netloc \<and> CHR '']'' \<in> set netloc
                      \<and> \<not> bracketed_host_ok (bracketed_host netloc)
              then Inl ValueError
              else (case split_query_fragment url3 of (path, query, fragment) \<Rightarrow>
                      Inr (scheme, netloc, path, query, fragment)))
         else (case split_query_fragment url2 of (path, query, fragment) \<Rightarrow>
                 Inr (scheme, [], path, query, fragment)))"

text \<open>
  \<open>_splitparams(url)\<close>. With a \<open>/\<close> in \<open>url\<close> the search for \<open>;\<close> starts at the last
  \<open>/\<close>, so only the last segment can carry parameters. Without a \<open>/\<close> and without a
  \<open>;\<close> (which \<open>urlparse\<close> never passes) \<open>find\<close> gives -1 and the slices are
  \<open>url[:-1]\<close> and \<open>url[0:]\<close>.
\<close>

definition splitparams :: "string \<Rightarrow> string \<times> string" where
  "splitparams url =
     (if CHR ''/'' \<in> set url then
        (let seg = rev (takeWhile (\<lambda>c. c \<noteq> CHR ''/'') (rev url));
             dir = take (length url - length seg) url
         in if CHR '';'' \<in> set seg
            then (dir @ takeWhile (\<lambda>c. c \<noteq> CHR '';'') seg,
                  drop 1 (dropWhile (\<lambda>c. c \<noteq> CHR '';'') seg))
            else (url, []))
      else if CHR '';'' \<in> set url
           then (takeWhile (\<lambda>c. c \<noteq> CHR '';'') url, drop 1 (dropWhile (\<lambda>c. c \<noteq> CHR '';'') url))
           else (butlast url, url))"

record parse_result =
  scheme :: string
  netloc :: string
  path :: string
  params :: string
  query :: string
  fragment :: string

definition urlparse :: "(string \<Rightarrow> bool) \<Rightarrow> string \<Rightarrow> string \<Rightarrow> exn + parse_result" where
  "urlparse bracketed_host_ok url scheme0 =
     (case urlsplit bracketed_host_ok url scheme0 of
        Inl e \<Rightarrow> Inl e
      | Inr (sch, loc, url1, qry, frag) \<Rightarrow>
          (let (url2, prm) =
                 (if sch \<in> set uses_params \<and> CHR '';'' \<in> set url1
                  then splitparams url1 else (url1, []))
           in Inr \<lparr>scheme = sch, netloc = loc, path = url2, params = prm,
                    query = qry, fragment = frag\<rparr>))"

definition urlunsplit :: "string \<Rightarrow> string \<Rightarrow> string \<Rightarrow> string \<Rightarrow> string \<Rightarrow> string" where
  "urlunsplit sch loc url qry frag =
     (let url1 = (if loc \<noteq> [] \<or> (sch \<noteq> [] \<and> sch \<in> set uses_netloc) \<or> take 2 url = ''//''
                  then ''//'' @ loc @ (if url \<noteq> [] \<and> take 1 url \<noteq> ''/'' then CHR ''/'' # url else url)
                  else url);
          url2 = (if sch \<noteq> [] then sch @ '':'' @ url1 else url1);
          url3 = (if qry \<noteq> [] then url2 @ ''?'' @ qry else url2)
      in if frag \<noteq> [] then url3 @ ''#'' @ frag else url3)"

definition urlunparse :: "parse_result \<Rightarrow> string" where
  "urlunparse p =
     urlunsplit (scheme p) (netloc p)
       (if params p \<noteq> [] then path p @ '';'' @ params p else path p)
       (query p) (fragment p)"

section \<open>The URL functions of the scraper\<close>

text \<open>
  \<open>SimpleWebsiteScraper.normalize_url\<close>: every exception of the body is caught and
  \<open>ValueError\<close> is raised in its place.
\<close>

definition normalize_url :: "(string \<Rightarrow> bool) \<Rightarrow> string \<Rightarrow> exn + string" where
  "normalize_url bracketed_host_ok url =
     (case urlparse bracketed_host_ok url [] of
        Inl e \<Rightarrow> Inl ValueError
      | Inr parsed \<Rightarrow>
          (let parsed1 = parsed\<lparr>fragment := []\<rparr>;
               parsed2 = (if endswith (path parsed1) ''/'' \<and> length (path parsed1) > 1
                          then parsed1\<lparr>path := rstrip (CHR ''/'') (path parsed1)\<rparr>
                          else parsed1)
           in Inr (urlunparse parsed2)))"

text \<open>
  \<open>SimpleWebsiteScraper.is_valid_internal_link\<close>. The attribute \<open>base_url\<close> is
  \<open>None\<close> until \<open>scrape\<close> sets it. \<open>urlparse(None)\<close> returns a result of empty
  \<open>bytes\<close>, whose netloc equals no \<open>str\<close>, so the conjunction is false. Every
  exception of the body is caught and the result is false.
\<close>

definition is_valid_internal_link ::
  "(string \<Rightarrow> bool) \<Rightarrow> string option \<Rightarrow> string \<Rightarrow> bool" where
  "is_valid_internal_link bracketed_host_ok base_url link =
     (if link = [] \<or> startswith link ''#'' then False
      else (case base_url of
              None \<Rightarrow> False
            | Some base \<Rightarrow>
                (case urlparse bracketed_host_ok base [] of
                   Inl e \<Rightarrow> False
                 | Inr parsed_base \<Rightarrow>
                     (case urlparse bracketed_host_ok link [] of
                        Inl e \<Rightarrow> False
                      | Inr parsed_link \<Rightarrow>
                          netloc parsed_base = netloc parsed_link \<and>
                          path parsed_link \<notin> set [[], ''/''] \<and>
                          startswith (path parsed_link) (path parsed_base)))))"

text \<open>
  The path resolution of \<open>urljoin\<close>: the slice assignment
  \<open>segments[1:-1] = filter(None, segments[1:-1])\<close> drops the empty segments strictly
  between the first and the last; the loop over the segments keeps a stack on which
  \<open>..\<close> pops (an empty stack stays empty) and \<open>.\<close> does nothing.
\<close>

definition filter_middle :: "string list \<Rightarrow> string list" where
  "filter_middle segments =
     (case segments of
        [] \<Rightarrow> []
      | [x] \<Rightarrow> [x]
      | x # rest \<Rightarrow> x # filter (\<lambda>seg. seg \<noteq> []) (butlast rest) @ [last rest])"

fun resolve_segments :: "string list \<Rightarrow> string list \<Rightarrow> string list" where
  "resolve_segments [] resolved_path = resolved_path"
| "resolve_segments (seg # segs) resolved_path =
     (if seg = ''..'' then resolve_segments segs (butlast resolved_path)
      else if seg = ''.'' then resolve_segments segs resolved_path
      else resolve_segments segs (resolved_path @ [seg]))"

definition urljoin :: "(string \<Rightarrow> bool) \<Rightarrow> string \<Rightarrow> string \<Rightarrow> exn + string" where
  "urljoin bracketed_host_ok base url =
     (if base = [] then Inr url
      else if url = [] then Inr base
      else (case urlparse bracketed_host_ok base [] of
              Inl e \<Rightarrow> Inl e
            | Inr b \<Rightarrow>
                (case urlparse bracketed_host_ok url (scheme b) of
                   Inl e \<Rightarrow> Inl e
                 | Inr u \<Rightarrow>
                     if scheme u \<noteq> scheme b \<or> scheme u \<notin> set uses_relative then Inr url
                     else if scheme u \<in> set uses_netloc \<and> netloc u \<noteq> [] then Inr (urlunparse u)
                     else
                       (let loc = (if scheme u \<in> set uses_netloc then netloc b else netloc u)
                        in if path u = [] \<and> params u = [] then
                             Inr (urlunparse (u\<lparr>netloc := loc, path := path b, params := params b,
                                    query := (if query u = [] then query b else query u)\<rparr>))
                           else
                             (let base_parts0 = split_on (CHR ''/'') (path b);
                                  base_parts = (if last base_parts0 \<noteq> [] then butlast base_parts0
                                                else base_parts0);
                                  segments = (if take 1 (path u) = ''/'' then split_on (CHR ''/'') (path u)
                                              else filter_middle (base_parts @ split_on (CHR ''/'') (path u)));
                                  resolved0 = resolve_segments segments [];
                                  resolved_path = (if last segments \<in> set [''.'', ''..'']
                                                   then resolved0 @ [[]] else resolved0);
                                  joined = join_with (CHR ''/'') resolved_path
                              in Inr (urlunparse (u\<lparr>netloc := loc,
                                    path := (if joined = [] then ''/'' else joined)\<rparr>)))))))"

text \<open>
  \<open>SimpleWebsiteScraper.join_url\<close>. With \<open>base_url\<close> still \<open>None\<close> the
  \<open>startswith\<close> of a \<open>str\<close> on \<open>bytes\<close> raises. Every exception of the body is
  caught and \<open>ValueError\<close> is raised in its place.
\<close>

definition join_url ::
  "(string \<Rightarrow> bool) \<Rightarrow> string option \<Rightarrow> string \<Rightarrow> string \<Rightarrow> exn + string" where
  "join_url bracketed_host_ok base_url base url =
     (case urljoin bracketed_host_ok base url of
        Inl e \<Rightarrow> Inl ValueError
      | Inr joined \<Rightarrow>
          (case base_url of
             None \<Rightarrow> Inl ValueError
           | Some root \<Rightarrow>
               (case urlparse bracketed_host_ok root [] of
                  Inl e \<Rightarrow> Inl ValueError
                | Inr parsed_base \<Rightarrow>
                    (case urlparse bracketed_host_ok joined [] of
                       Inl e \<Rightarrow> Inl ValueError
                     | Inr parsed_joined \<Rightarrow>
                         (if \<not> startswith (path parsed_joined) (path parsed_base)
                          then Inr (urlunparse (parsed_joined\<lparr>path :=
                                  rstrip (CHR ''/'') (path parsed_base) @ ''/'' @
                                  lstrip (CHR ''/'') (path parsed_joined)\<rparr>))
                          else Inr (urlunparse parsed_joined))))))"

section \<open>The crawler\<close>

text \<open>
  What the external crawler returns for one URL. A link of a page is a dictionary; the
  scraper reads its \<open>href\<close> entry, and \<open>NoHref\<close> is a link without one (the read
  raises \<open>KeyError\<close>). \<open>internal\<close> and \<open>external\<close> are
  \<open>result.links.get('internal', [])\<close> and \<open>result.links.get('external', [])\<close>;
  \<open>markdown\<close> is empty when the attribute is \<open>None\<close> or empty. \<open>Raised\<close> is a
  call of \<open>arun\<close> that raises.
\<close>

datatype link = Href string | NoHref

record crawl_result =
  success :: bool
  internal :: "link list"
  external :: "link list"
  markdown :: string

datatype response = Raised | Returned crawl_result

definition succeeded :: "response \<Rightarrow> bool" where
  "succeeded r = (case r of Raised \<Rightarrow> False | Returned res \<Rightarrow> success res)"

text \<open>
  \<open>d[k] = v\<close> on a dictionary kept in insertion order: a present key keeps its place.
\<close>

definition dict_set :: "('k \<times> 'v) list \<Rightarrow> 'k \<Rightarrow> 'v \<Rightarrow> ('k \<times> 'v) list" where
  "dict_set d k v =
     (if k \<in> fst ` set d then map (\<lambda>(k', v'). if k' = k then (k', v) else (k', v')) d
      else d @ [(k, v)])"

text \<open>
  The local variables of \<open>scrape\<close>: the FIFO \<open>queue\<close>, the \<open>visited\<close> set and the
  \<open>results\<close> dictionary. \<open>calls\<close> records the calls of \<open>arun\<close> in order: the URL,
  the depth logged just before the call, and what the call gave.
\<close>

record crawl_state =
  queue :: "(string \<times> int) list"
  visited :: "string set"
  results :: "(string \<times> crawl_result) list"
  calls :: "(string \<times> int \<times> response) list"

text \<open>
  The \<open>for link in internal_links\<close> loop. A \<open>ValueError\<close> of \<open>join_url\<close> or
  \<open>normalize_url\<close> is caught inside the loop and the link is skipped. Any other
  exception leaves the loop; the entries appended so far stay in the queue. The result
  is the queue and the exception that left the loop, if any.
\<close>

fun process_links ::
  "(string \<Rightarrow> bool) \<Rightarrow> string option \<Rightarrow> string \<Rightarrow> int \<Rightarrow> string set \<Rightarrow> link list \<Rightarrow>
     (string \<times> int) list \<Rightarrow> (string \<times> int) list \<times> exn option" where
  "process_links ok base_url current_url current_depth vis [] q = (q, None)"
| "process_links ok base_url current_url current_depth vis (NoHref # ls) q = (q, Some KeyError)"
| "process_links ok base_url current_url current_depth vis (Href href # ls) q =
     (case join_url ok base_url current_url href of
        Inl e \<Rightarrow> process_links ok base_url current_url current_depth vis ls q
      | Inr full_url \<Rightarrow>
          (case normalize_url ok full_url of
             Inl e \<Rightarrow> process_links ok base_url current_url current_depth vis ls q
           | Inr normalized_url \<Rightarrow>
               if is_valid_internal_link ok base_url normalized_url \<and> normalized_url \<notin> vis
               then process_links ok base_url current_url current_depth vis ls
                      (q @ [(normalized_url, current_depth + 1)])
               else process_links ok base_url current_url current_depth vis ls q))"

text \<open>
  One iteration of \<open>while queue\<close>. \<open>arun\<close> is the external crawler: its answer may
  depend on the URLs it was called with before. An exception of the call or of the link
  loop is caught by the handler of the iteration, which logs it and continues.
\<close>

definition crawl_step ::
  "(string list \<Rightarrow> string \<Rightarrow> response) \<Rightarrow> (string \<Rightarrow> bool) \<Rightarrow> string option \<Rightarrow> int \<Rightarrow>
     crawl_state \<Rightarrow> crawl_state" where
  "crawl_step arun ok base_url max_depth s =
     (case queue s of
        [] \<Rightarrow> s
      | (current_url, current_depth) # rest \<Rightarrow>
          (let s1 = s\<lparr>queue := rest\<rparr>
           in if current_url \<in> visited s1 \<or> current_depth > max_depth then s1
              else
                (let s2 = s1\<lparr>visited := insert current_url (visited s1)\<rparr>;
                     r = arun (map fst (calls s2)) current_url;
                     s3 = s2\<lparr>calls := calls s2 @ [(current_url, current_depth, r)]\<rparr>
                 in (case r of
                       Raised \<Rightarrow> s3
                     | Returned result \<Rightarrow>
                         if success result then
                           (let s4 = s3\<lparr>results := dict_set (results s3) current_url result\<rparr>
                            in if current_depth < max_depth
                               then s4\<lparr>queue := fst (process_links ok base_url current_url
                                        current_depth (visited s4) (internal result) (queue s4))\<rparr>
                               else s4)
                         else s3))))"

function scrape_loop ::
  "(string list \<Rightarrow> string \<Rightarrow> response) \<Rightarrow> (string \<Rightarrow> bool) \<Rightarrow> string option \<Rightarrow> int \<Rightarrow>
     crawl_state \<Rightarrow> crawl_state" where
  "scrape_loop arun ok base_url max_depth s =
     (if queue s = [] then s
      else scrape_loop arun ok base_url max_depth (crawl_step arun ok base_url max_depth s))"
  by pat_completeness auto

definition init_state :: "string \<Rightarrow> crawl_state" where
  "init_state base = \<lparr>queue = [(base, 0)], visited = {}, results = [], calls = []\<rparr>"

text \<open>
  \<open>SimpleWebsiteScraper.scrape\<close>. \<open>scrape_run\<close> is the run with its final state,
  \<open>scrape\<close> the value returned: the \<open>results\<close> dictionary, or the \<open>ValueError\<close> of
  the start URL, raised again.
\<close>

definition scrape_run ::
  "(string list \<Rightarrow> string \<Rightarrow> response) \<Rightarrow> (string \<Rightarrow> bool) \<Rightarrow> string \<Rightarrow> int \<Rightarrow>
     exn + crawl_state" where
  "scrape_run arun ok start_url max_depth =
     (case normalize_url ok start_url of
        Inl e \<Rightarrow> Inl e
      | Inr base \<Rightarrow> Inr (scrape_loop arun ok (Some base) max_depth (init_state base)))"

definition scrape ::
  "(string list \<Rightarrow> string \<Rightarrow> response) \<Rightarrow> (string \<Rightarrow> bool) \<Rightarrow> string \<Rightarrow> int \<Rightarrow>
     exn + (string \<times> crawl_result) list" where
  "scrape arun ok start_url max_depth =
     (case scrape_run arun ok start_url max_depth of
        Inl e \<Rightarrow> Inl e
      | Inr s \<Rightarrow> Inr (results s))"

section \<open>The entry point that saves the report\<close>

text \<open>
  What \<open>CustomCrawler.scrapper_tool\<close> depends on outside the program: whether the
  \<open>AsyncWebCrawler\<close> context is entered and the extraction strategy is built without
  an exception, the crawler itself, the host check of the library, and whether
  \<open>crawl_results.md\<close> can be opened and written.
\<close>

record world =
  crawler_starts :: bool
  strategy_starts :: bool
  fetcher :: "string list \<Rightarrow> string \<Rightarrow> response"
  host_check :: "string \<Rightarrow> bool"
  file_writable :: bool

datatype io_event = CrawlerStart | PageFetch string | FileWrite "string list"

text \<open>\<open>str(n)\<close> for a length.\<close>

fun str_nat :: "nat \<Rightarrow> string" where
  "str_nat n = (if n < 10 then [char_of (48 + n)]
                else str_nat (n div 10) @ [char_of (48 + n mod 10)])"

text \<open>
  The strings written to the file, in order: the title, the count of pages, and the
  section of the first page of the dictionary only (the slice \<open>[:1]\<close>).
\<close>

definition report :: "string \<Rightarrow> (string \<times> crawl_result) list \<Rightarrow> string list" where
  "report start_url res =
     [''# Crawl Results'' @ [CHR 0x0A, CHR 0x0A],
      ''**Crawled '' @ str_nat (length res) @ '' pages starting from '' @ start_url @ ''**''
        @ [CHR 0x0A, CHR 0x0A]] @
     concat (map (\<lambda>(url, result).
        [''## '' @ url @ [CHR 0x0A],
         ''- **Internal Links**: '' @ str_nat (length (internal result)) @ [CHR 0x0A],
         ''- **External Links**: '' @ str_nat (length (external result)) @ [CHR 0x0A, CHR 0x0A]] @
        (if markdown result \<noteq> []
         then [''### Page Content'' @ [CHR 0x0A] @ markdown result @ [CHR 0x0A, CHR 0x0A]]
         else []))
       (take 1 res))"

text \<open>
  \<open>CustomCrawler.scrapper_tool\<close>: the events outside the program, in order, and the
  outcome. The depth check stands before the \<open>try\<close>; every exception inside it is
  raised again as \<open>RuntimeError\<close>.
\<close>

definition scrapper_tool :: "world \<Rightarrow> string \<Rightarrow> int \<Rightarrow> io_event list \<times> (exn + unit)" where
  "scrapper_tool w start_url depth =
     (if depth < 0 then ([], Inl ValueError)
      else if \<not> crawler_starts w then ([CrawlerStart], Inl RuntimeError)
      else if \<not> strategy_starts w then ([CrawlerStart], Inl RuntimeError)
      else (case scrape_run (fetcher w) (host_check w) start_url depth of
              Inl e \<Rightarrow> ([CrawlerStart], Inl RuntimeError)
            | Inr s \<Rightarrow>
                (let fetched = CrawlerStart # map (\<lambda>c. PageFetch (fst c)) (calls s)
                 in if file_writable w
                    then (fetched @ [FileWrite (report start_url (results s))], Inr ())
                    else (fetched, Inl RuntimeError))))"

section \<open>Termination of the traversal\<close>

text \<open>
  Every entry that the link loop appends has the depth of the page plus one.
\<close>

lemma process_links_appends:
  "\<exists>ns. fst (process_links ok b u d vis ls q) = q @ ns \<and> (\<forall>e\<in>set ns. snd e = d + 1)"
proof (induction ok b u d vis ls q rule: process_links.induct)
  case (3 ok b u d vis href ls q)
  show ?case
  proof (cases "join_url ok b u href")
    case (Inl e)
    with 3 show ?thesis by simp
  next
    case full: (Inr full_url)
    show ?thesis
    proof (cases "normalize_url ok full_url")
      case (Inl e)
      with 3 full show ?thesis by simp
    next
      case (Inr n)
      show ?thesis
      proof (cases "is_valid_internal_link ok b n \<and> n \<notin> vis")
        case True
        from "3.IH"(3)[OF full Inr True]
        obtain ns where "fst (process_links ok b u d vis ls (q @ [(n, d + 1)])) = (q @ [(n, d + 1)]) @ ns"
          and "\<forall>e\<in>set ns. snd e = d + 1"
          by blast
        then show ?thesis
          using True Inr full by (intro exI[of _ "(n, d + 1) # ns"]) auto
      next
        case False
        with 3 Inr full show ?thesis by auto
      qed
    qed
  qed
qed auto

text \<open>
  The weight of a queue entry is the number of levels left below it. An iteration
  replaces the head of the queue by entries of smaller weight, so the multiset of the
  weights decreases.
\<close>

definition weight :: "int \<Rightarrow> string \<times> int \<Rightarrow> nat" where
  "weight max_depth e = nat (max_depth + 1 - snd e)"

lemma crawl_step_queue:
  assumes "queue s = (u, d) # rest"
  shows "\<exists>ns. queue (crawl_step arun ok b md s) = rest @ ns \<and>
           (\<forall>e\<in>set ns. snd e = d + 1 \<and> d < md \<and> u \<notin> visited s)"
proof (cases "u \<in> visited s \<or> d > md")
  case True
  then show ?thesis using assms by (auto simp: crawl_step_def)
next
  case False
  show ?thesis
  proof (cases "arun (map fst (calls s)) u")
    case Raised
    then show ?thesis using assms False by (auto simp: crawl_step_def Let_def)
  next
    case (Returned res)
    show ?thesis
    proof (cases "success res \<and> d < md")
      case True
      obtain ns where "fst (process_links ok b u d (insert u (visited s)) (internal res) rest) = rest @ ns"
        and "\<forall>e\<in>set ns. snd e = d + 1"
        using process_links_appends by blast
      then show ?thesis
        using assms False Returned True by (auto simp: crawl_step_def Let_def)
    next
      case False
      with assms \<open>\<not> (u \<in> visited s \<or> d > md)\<close> Returned show ?thesis
        by (auto simp: crawl_step_def Let_def)
    qed
  qed
qed

lemma crawl_step_decreases:
  assumes "queue s \<noteq> []"
  shows "(mset (map (weight md) (queue (crawl_step arun ok b md s))),
          mset (map (weight md) (queue s))) \<in> mult {(x, y). x < y}"
proof -
  from assms obtain u d rest where q: "queue s = (u, d) # rest"
    by (cases "queue s") auto
  from crawl_step_queue[OF q] obtain ns
    where ns: "queue (crawl_step arun ok b md s) = rest @ ns"
      and new: "\<forall>e\<in>set ns. snd e = d + 1 \<and> d < md \<and> u \<notin> visited s"
    by blast
  have "\<forall>e\<in>set ns. weight md e < weight md (u, d)"
    using new by (auto simp: weight_def)
  then have "(mset (map (weight md) rest) + mset (map (weight md) ns),
         mset (map (weight md) rest) + {#weight md (u, d)#}) \<in> mult {(x, y). x < y}"
    by (intro one_step_implies_mult) auto
  then show ?thesis using q ns by (simp add: add.commute)
qed

termination scrape_loop
proof (relation "inv_image (mult {(x::nat, y). x < y})
         (\<lambda>(arun, ok, b, md, s). mset (map (weight md) (queue s)))")
  show "wf (inv_image (mult {(x::nat, y). x < y})
         (\<lambda>(arun, ok, b, md, s). mset (map (weight md) (queue s))))"
    by (intro wf_inv_image wf_mult wf_less)
next
  fix arun ok b md and s :: crawl_state
  assume "queue s \<noteq> []"
  then show "((arun, ok, b, md, crawl_step arun ok b md s), (arun, ok, b, md, s))
      \<in> inv_image (mult {(x::nat, y). x < y})
         (\<lambda>(arun, ok, b, md, s). mset (map (weight md) (queue s)))"
    using crawl_step_decreases by simp
qed

declare scrape_loop.simps [simp del]

section \<open>Invariants of the traversal\<close>

lemma crawl_step_skip:
  assumes "queue s = (u, d) # rest" and "u \<in> visited s \<or> md < d"
  shows "crawl_step arun ok b md s = s\<lparr>queue := rest\<rparr>"
  using assms by (auto simp: crawl_step_def)

lemma crawl_step_fetch:
  assumes "queue s = (u, d) # rest" and "u \<notin> visited s" and "d \<le> md"
  shows "crawl_step arun ok b md s =
     s\<lparr>queue := (if succeeded (arun (map fst (calls s)) u) \<and> d < md
                   then fst (process_links ok b u d (insert u (visited s))
                          (case arun (map fst (calls s)) u of Returned res \<Rightarrow> internal res | Raised \<Rightarrow> []) rest)
                   else rest),
        visited := insert u (visited s),
        results := (case arun (map fst (calls s)) u of
                      Returned res \<Rightarrow> if success res then dict_set (results s) u res else results s
                    | Raised \<Rightarrow> results s),
        calls := calls s @ [(u, d, arun (map fst (calls s)) u)]\<rparr>"
  using assms
  by (cases "arun (map fst (calls s)) u") (auto simp: crawl_step_def Let_def succeeded_def)


lemma scrape_loop_invariant:
  assumes "P s" and "\<And>t. P t \<Longrightarrow> queue t \<noteq> [] \<Longrightarrow> P (crawl_step arun ok b md t)"
  shows "P (scrape_loop arun ok b md s)"
  using assms
proof (induction arun ok b md s rule: scrape_loop.induct)
  case (1 arun ok b md s)
  show ?case
  proof (cases "queue s = []")
    case True
    have "scrape_loop arun ok b md s = s" by (subst scrape_loop.simps) (simp add: True)
    with 1(2) show ?thesis by simp
  next
    case False
    have "P (scrape_loop arun ok b md (crawl_step arun ok b md s))"
      using 1 False by blast
    with False show ?thesis by (subst scrape_loop.simps) simp
  qed
qed

lemma scrape_loop_queue_empty: "queue (scrape_loop arun ok b md s) = []"
proof (induction arun ok b md s rule: scrape_loop.induct)
  case (1 arun ok b md s)
  then show ?case by (subst scrape_loop.simps) simp
qed


definition recorded :: "string \<times> int \<times> response \<Rightarrow> (string \<times> crawl_result) list" where
  "recorded c = (case snd (snd c) of
                   Raised \<Rightarrow> []
                 | Returned res \<Rightarrow> if success res then [(fst c, res)] else [])"

definition crawl_inv :: "int \<Rightarrow> crawl_state \<Rightarrow> bool" where
  "crawl_inv md s \<longleftrightarrow>
     visited s = set (map fst (calls s)) \<and>
     distinct (map fst (calls s)) \<and>
     (\<forall>c\<in>set (calls s). fst (snd c) \<le> md) \<and>
     results s = concat (map recorded (calls s))"

lemma recorded_keys: "fst ` set (concat (map recorded cs)) \<subseteq> set (map fst cs)"
  by (induction cs) (auto simp: recorded_def split: response.splits if_splits)

lemma recorded_length:
  "length (concat (map recorded cs)) + length (filter (\<lambda>c. \<not> succeeded (snd (snd c))) cs) = length cs"
  by (induction cs) (auto simp: recorded_def succeeded_def split: response.splits)

lemma recorded_cases:
  "recorded c = [] \<and> \<not> succeeded (snd (snd c)) \<or>
   (\<exists>res. recorded c = [(fst c, res)] \<and> snd (snd c) = Returned res \<and> succeeded (snd (snd c)))"
  by (cases "snd (snd c)") (simp_all add: recorded_def succeeded_def)

lemma recorded_distinct:
  "distinct (map fst cs) \<Longrightarrow> distinct (map fst (concat (map recorded cs)))"
proof (induction cs)
  case Nil
  show ?case by simp
next
  case (Cons c cs)
  have fresh: "fst c \<notin> fst ` set (concat (map recorded cs))"
    using Cons.prems recorded_keys[of cs] by auto
  have ih: "distinct (map fst (concat (map recorded cs)))"
    using Cons by simp
  from recorded_cases[of c] show ?case
  proof
    assume "recorded c = [] \<and> \<not> succeeded (snd (snd c))"
    then show ?thesis using ih by simp
  next
    assume "\<exists>res. recorded c = [(fst c, res)] \<and> snd (snd c) = Returned res \<and> succeeded (snd (snd c))"
    then obtain res where "recorded c = [(fst c, res)]" by blast
    then show ?thesis using ih fresh by simp
  qed
qed





lemma crawl_inv_init: "crawl_inv md (init_state b)"
  by (simp add: crawl_inv_def init_state_def)

lemma crawl_step_visited:
  assumes "queue s = (u, d) # rest" and "u \<notin> visited s" and "d \<le> md"
  shows "visited (crawl_step arun ok b md s) = insert u (visited s)"
  using assms
  by (cases "arun (map fst (calls s)) u") (simp_all add: crawl_step_def Let_def)

lemma crawl_step_calls:
  assumes "queue s = (u, d) # rest" and "u \<notin> visited s" and "d \<le> md"
  shows "calls (crawl_step arun ok b md s) = calls s @ [(u, d, arun (map fst (calls s)) u)]"
  using assms
  by (cases "arun (map fst (calls s)) u") (simp_all add: crawl_step_def Let_def)

lemma crawl_step_results:
  assumes "queue s = (u, d) # rest" and "u \<notin> visited s" and "d \<le> md"
    and "u \<notin> fst ` set (results s)"
  shows "results (crawl_step arun ok b md s) =
           results s @ recorded (u, d, arun (map fst (calls s)) u)"
  using assms
  by (cases "arun (map fst (calls s)) u")
     (simp_all add: crawl_step_def Let_def recorded_def dict_set_def)

lemma crawl_inv_step:
  assumes "crawl_inv md s"
  shows "crawl_inv md (crawl_step arun ok b md s)"
proof (cases "queue s")
  case Nil
  then show ?thesis using assms by (simp add: crawl_step_def)
next
  case (Cons e rest)
  obtain u d where e: "e = (u, d)" by (cases e)
  with Cons have q: "queue s = (u, d) # rest" by simp
  show ?thesis
  proof (cases "u \<in> visited s \<or> md < d")
    case True
    then show ?thesis using assms crawl_step_skip[OF q True] by (simp add: crawl_inv_def)
  next
    case False
    then have nv: "u \<notin> visited s" and dle: "d \<le> md" by auto
    have fresh: "u \<notin> fst ` set (results s)"
      using assms nv recorded_keys[of "calls s"] by (auto simp: crawl_inv_def)
    note v = crawl_step_visited[OF q nv dle, of arun ok b]
    note c = crawl_step_calls[OF q nv dle, of arun ok b]
    note r = crawl_step_results[OF q nv dle fresh, of arun ok b]
    have i1: "visited s = set (map fst (calls s))" and i2: "distinct (map fst (calls s))"
      and i3: "\<forall>c\<in>set (calls s). fst (snd c) \<le> md"
      and i4: "results s = concat (map recorded (calls s))"
      using assms by (simp_all add: crawl_inv_def)
    show ?thesis
      unfolding crawl_inv_def v c r
      using i1 i2 i3 i4 nv dle by auto
  qed
qed

lemma crawl_inv_loop: "crawl_inv md s \<Longrightarrow> crawl_inv md (scrape_loop arun ok b md s)"
  by (rule scrape_loop_invariant) (auto intro: crawl_inv_step)

lemma scrape_run_Inr:
  "scrape_run arun ok start_url md = Inr s \<longleftrightarrow>
     (\<exists>base. normalize_url ok start_url = Inr base \<and>
        s = scrape_loop arun ok (Some base) md (init_state base))"
  by (auto simp: scrape_run_def split: sum.splits)

lemma scrape_run_inv:
  assumes "scrape_run arun ok start_url md = Inr s"
  shows "crawl_inv md s" and "queue s = []"
proof -
  from assms obtain base where s: "s = scrape_loop arun ok (Some base) md (init_state base)"
    by (auto simp: scrape_run_Inr)
  show "crawl_inv md s" unfolding s by (intro crawl_inv_loop crawl_inv_init)
  show "queue s = []" unfolding s by (rule scrape_loop_queue_empty)
qed

lemma crawl_step_empty: "queue s = [] \<Longrightarrow> crawl_step arun ok b md s = s"
  by (simp add: crawl_step_def)

lemma scrape_loop_step:
  "scrape_loop arun ok b md (crawl_step arun ok b md s) = scrape_loop arun ok b md s"
proof (cases "queue s = []")
  case True
  then show ?thesis by (simp add: crawl_step_empty)
next
  case False
  then show ?thesis by (subst (2) scrape_loop.simps) simp
qed

lemma scrape_loop_funpow:
  "scrape_loop arun ok b md ((crawl_step arun ok b md ^^ n) s) = scrape_loop arun ok b md s"
  by (induction n) (simp_all add: scrape_loop_step)

lemma crawl_inv_funpow:
  "crawl_inv md s \<Longrightarrow> crawl_inv md ((crawl_step arun ok b md ^^ n) s)"
  by (induction n) (simp_all add: crawl_inv_step)

lemma crawl_step_visited_mono: "visited s \<subseteq> visited (crawl_step arun ok b md s)"
proof (cases "queue s")
  case Nil
  then show ?thesis by (simp add: crawl_step_empty)
next
  case (Cons e rest)
  obtain u d where "e = (u, d)" by (cases e)
  with Cons have q: "queue s = (u, d) # rest" by simp
  show ?thesis
  proof (cases "u \<in> visited s \<or> md < d")
    case True
    then show ?thesis by (simp add: crawl_step_skip[OF q])
  next
    case False
    then show ?thesis using crawl_step_visited[OF q, of md arun ok b] by auto
  qed
qed

lemma scrape_loop_visited_mono: "visited s \<subseteq> visited (scrape_loop arun ok b md s)"
proof (rule scrape_loop_invariant)
  show "visited s \<subseteq> visited s" by simp
next
  fix t :: crawl_state assume "visited s \<subseteq> visited t"
  then show "visited s \<subseteq> visited (crawl_step arun ok b md t)"
    using crawl_step_visited_mono[of t arun ok b md] by blast
qed

lemma queue_processed:
  "e \<in> set (queue s) \<Longrightarrow> snd e \<le> md \<Longrightarrow> fst e \<in> visited (scrape_loop arun ok b md s)"
proof (induction arun ok b md s rule: scrape_loop.induct)
  case (1 arun ok b md s)
  from "1.prems"(1) have ne: "queue s \<noteq> []" by auto
  then obtain u d rest where q: "queue s = (u, d) # rest"
    by (cases "queue s") auto
  let ?s' = "crawl_step arun ok b md s"
  have loop: "scrape_loop arun ok b md s = scrape_loop arun ok b md ?s'"
    by (simp add: scrape_loop_step)
  show ?case
  proof (cases "e = (u, d)")
    case True
    have "u \<in> visited ?s'"
    proof (cases "u \<in> visited s")
      case True
      then show ?thesis using crawl_step_visited_mono[of s arun ok b md] by blast
    next
      case False
      moreover have "d \<le> md" using "1.prems"(2) \<open>e = (u, d)\<close> by simp
      ultimately show ?thesis using crawl_step_visited[OF q, of md arun ok b] by simp
    qed
    then show ?thesis
      using scrape_loop_visited_mono[of ?s' arun ok b md] True loop by auto
  next
    case False
    with "1.prems"(1) q have "e \<in> set rest" by simp
    moreover obtain ns where "queue ?s' = rest @ ns"
      using crawl_step_queue[OF q] by blast
    ultimately have "e \<in> set (queue ?s')" by simp
    from "1.IH"[OF ne this "1.prems"(2)] show ?thesis using loop by simp
  qed
qed

lemma crawl_step_results_prefix:
  assumes "crawl_inv md s"
  shows "prefix (results s) (results (crawl_step arun ok b md s))"
proof (cases "queue s")
  case Nil
  then show ?thesis by (simp add: crawl_step_empty)
next
  case (Cons e rest)
  obtain u d where "e = (u, d)" by (cases e)
  with Cons have q: "queue s = (u, d) # rest" by simp
  show ?thesis
  proof (cases "u \<in> visited s \<or> md < d")
    case True
    then show ?thesis by (simp add: crawl_step_skip[OF q])
  next
    case False
    then have nv: "u \<notin> visited s" and dle: "d \<le> md" by auto
    have fresh: "u \<notin> fst ` set (results s)"
      using assms nv recorded_keys[of "calls s"] by (auto simp: crawl_inv_def)
    show ?thesis by (simp add: crawl_step_results[OF q nv dle fresh])
  qed
qed

lemma scrape_loop_results_prefix:
  assumes "crawl_inv md s"
  shows "prefix (results s) (results (scrape_loop arun ok b md s))"
proof -
  have "crawl_inv md (scrape_loop arun ok b md s) \<and>
        prefix (results s) (results (scrape_loop arun ok b md s))"
  proof (rule scrape_loop_invariant)
    show "crawl_inv md s \<and> prefix (results s) (results s)" using assms by simp
  next
    fix t :: crawl_state assume "crawl_inv md t \<and> prefix (results s) (results t)"
    then show "crawl_inv md (crawl_step arun ok b md t) \<and>
        prefix (results s) (results (crawl_step arun ok b md t))"
      using crawl_inv_step crawl_step_results_prefix prefix_order.trans by blast
  qed
  then show ?thesis by simp
qed

definition bfs_inv :: "crawl_state \<Rightarrow> bool" where
  "bfs_inv s \<longleftrightarrow>
     sorted (map snd (queue s)) \<and>
     (\<forall>e\<in>set (queue s). \<forall>e'\<in>set (queue s). snd e' \<le> snd e + 1) \<and>
     sorted (map (\<lambda>c. fst (snd c)) (calls s)) \<and>
     (\<forall>c\<in>set (calls s). \<forall>e\<in>set (queue s). fst (snd c) \<le> snd e)"

lemma bfs_inv_init: "bfs_inv (init_state b)"
  by (simp add: bfs_inv_def init_state_def)

lemma crawl_step_calls_cases:
  assumes "queue s = (u, d) # rest"
  shows "calls (crawl_step arun ok b md s) = calls s \<or>
         (\<exists>r. calls (crawl_step arun ok b md s) = calls s @ [(u, d, r)])"
proof (cases "u \<in> visited s \<or> md < d")
  case True
  then show ?thesis by (simp add: crawl_step_skip[OF assms])
next
  case False
  then show ?thesis using crawl_step_calls[OF assms, of md arun ok b] by auto
qed

lemma sorted_same_depth:
  "\<forall>e\<in>set ns. snd e = (k::int) \<Longrightarrow> sorted (map snd ns)"
  by (induction ns) auto

lemma bfs_inv_step:
  assumes "bfs_inv s"
  shows "bfs_inv (crawl_step arun ok b md s)"
proof (cases "queue s")
  case Nil
  then show ?thesis using assms by (simp add: crawl_step_empty)
next
  case (Cons e rest)
  obtain u d where "e = (u, d)" by (cases e)
  with Cons have q: "queue s = (u, d) # rest" by simp
  let ?s' = "crawl_step arun ok b md s"
  obtain ns where qs: "queue ?s' = rest @ ns" and new: "\<forall>e\<in>set ns. snd e = d + 1"
    using crawl_step_queue[OF q, of arun ok b md] by blast
  have srt: "sorted (map snd rest)" and low: "\<forall>e\<in>set rest. d \<le> snd e"
    and high: "\<forall>e\<in>set rest. snd e \<le> d + 1"
    and pair: "\<forall>e\<in>set rest. \<forall>e'\<in>set rest. snd e' \<le> snd e + 1"
    and cs: "sorted (map (\<lambda>c. fst (snd c)) (calls s))"
    and cd: "\<forall>c\<in>set (calls s). fst (snd c) \<le> d"
    and cr: "\<forall>c\<in>set (calls s). \<forall>e\<in>set rest. fst (snd c) \<le> snd e"
    using assms unfolding bfs_inv_def q by simp_all
  have g1: "sorted (map snd (queue ?s'))"
    unfolding qs using srt high new sorted_same_depth[OF new] by (auto simp: sorted_append)
  have lo: "\<forall>e\<in>set (rest @ ns). d \<le> snd e" and hi: "\<forall>e\<in>set (rest @ ns). snd e \<le> d + 1"
    using low high new by auto
  have g2: "\<forall>e\<in>set (queue ?s'). \<forall>e'\<in>set (queue ?s'). snd e' \<le> snd e + 1"
    unfolding qs
  proof (intro ballI)
    fix e e' assume "e \<in> set (rest @ ns)" and "e' \<in> set (rest @ ns)"
    then have "d \<le> snd e" and "snd e' \<le> d + 1" using lo hi by blast+
    then show "snd e' \<le> snd e + 1" by linarith
  qed
  have cc: "\<forall>c\<in>set (calls ?s'). fst (snd c) \<le> d"
    using crawl_step_calls_cases[OF q, of arun ok b md] cd by auto
  have g3: "sorted (map (\<lambda>c. fst (snd c)) (calls ?s'))"
    using crawl_step_calls_cases[OF q, of arun ok b md] cs cd by (auto simp: sorted_append)
  have g4: "\<forall>c\<in>set (calls ?s'). \<forall>e\<in>set (queue ?s'). fst (snd c) \<le> snd e"
    unfolding qs
  proof (intro ballI)
    fix c e assume "c \<in> set (calls ?s')" and "e \<in> set (rest @ ns)"
    then have "fst (snd c) \<le> d" and "d \<le> snd e" using cc lo by blast+
    then show "fst (snd c) \<le> snd e" by linarith
  qed
  show ?thesis unfolding bfs_inv_def using g1 g2 g3 g4 by blast
qed

lemma bfs_inv_loop: "bfs_inv s \<Longrightarrow> bfs_inv (scrape_loop arun ok b md s)"
  by (rule scrape_loop_invariant) (auto intro: bfs_inv_step)

lemma scrape_loop_negative_depth:
  assumes "md < 0"
  shows "scrape_loop arun ok b md (init_state base) =
           \<lparr>queue = [], visited = {}, results = [], calls = []\<rparr>"
proof -
  have q: "queue (init_state base) = (base, 0) # []" by (simp add: init_state_def)
  have "crawl_step arun ok b md (init_state base) = (init_state base)\<lparr>queue := []\<rparr>"
    using crawl_step_skip[OF q, of md arun ok b] assms by simp
  then have "scrape_loop arun ok b md (init_state base) =
      scrape_loop arun ok b md ((init_state base)\<lparr>queue := []\<rparr>)"
    using scrape_loop_step[of arun ok b md "init_state base"] by simp
  also have "\<dots> = (init_state base)\<lparr>queue := []\<rparr>"
    by (subst scrape_loop.simps) simp
  finally show ?thesis by (simp add: init_state_def)
qed

section \<open>Example sites\<close>

text \<open>
  A page that was fetched with the given internal links, and a site in which the start
  page links to \<open>a\<close> and \<open>b\<close>, both of which link to \<open>c\<close>.
\<close>

definition page :: "link list \<Rightarrow> response" where
  "page ls = Returned \<lparr>success = True, internal = ls, external = [], markdown = []\<rparr>"

definition diamond :: "string list \<Rightarrow> string \<Rightarrow> response" where
  "diamond h u =
     (if u = ''http://a.com/x'' then page [Href ''/x/a'', Href ''/x/b'']
      else if u = ''http://a.com/x/a'' then page [Href ''/x/c'']
      else if u = ''http://a.com/x/b'' then page [Href ''/x/c'']
      else if u = ''http://a.com/x/c'' then page [Href ''/x'', Href ''/x/d'']
      else Raised)"


definition broken :: "string list \<Rightarrow> string \<Rightarrow> response" where
  "broken h u =
     (if u = ''http://a.com/x'' then page [Href ''/x/a'', NoHref, Href ''/x/b'']
      else if u = ''http://a.com/x/a'' then page []
      else Raised)"

definition online :: world where
  "online = \<lparr>crawler_starts = True, strategy_starts = True, fetcher = diamond,
              host_check = (\<lambda>_. True), file_writable = True\<rparr>"

subsection \<open>The host of a netloc\<close>

text \<open>
  The host of a netloc as the \<open>hostname\<close> attribute of a parse result computes it:
  without user information and port, in lower case up to a zone identifier, \<open>None\<close>
  when empty. The scraper never reads it; it stands for the word "host" of claim C6.
\<close>

definition lower_str_char :: "char \<Rightarrow> char" where
  "lower_str_char c =
     (let n = (of_char c :: nat)
      in if (65 \<le> n \<and> n \<le> 90) \<or> (192 \<le> n \<and> n \<le> 222 \<and> n \<noteq> 215) then char_of (n + 32) else c)"

definition hostname :: "string \<Rightarrow> string option" where
  "hostname loc =
     (let hostinfo = rev (takeWhile (\<lambda>c. c \<noteq> CHR ''@'') (rev loc));
          host = (if CHR ''['' \<in> set hostinfo
                  then takeWhile (\<lambda>c. c \<noteq> CHR '']'')
                         (drop 1 (dropWhile (\<lambda>c. c \<noteq> CHR ''['') hostinfo))
                  else takeWhile (\<lambda>c. c \<noteq> CHR '':'') hostinfo)
      in if host = [] then None
         else Some (map lower_str_char (takeWhile (\<lambda>c. c \<noteq> CHR ''%'') host)
                      @ dropWhile (\<lambda>c. c \<noteq> CHR ''%'') host))"

section \<open>The claims\<close>

text \<open>
  C1. In every run of \<open>scrape\<close> no URL is fetched twice and no entry deeper than
  \<open>max_depth\<close> is fetched; the visited set is the set of the fetched URLs. An
  iteration whose entry is already visited or too deep only removes the entry from the
  queue; otherwise the URL is in the visited set whatever the fetch gives, also when it
  raises, and exactly one call of the crawler is recorded.
\<close>

theorem scrape_fetches_once_within_depth:
  assumes "scrape_run arun ok start_url max_depth = Inr s"
  shows "distinct (map fst (calls s)) \<and>
         (\<forall>c\<in>set (calls s). fst (snd c) \<le> max_depth) \<and>
         visited s = set (map fst (calls s)) \<and>
         (\<forall>t u d rest. queue t = (u, d) # rest \<longrightarrow>
            (u \<in> visited t \<or> max_depth < d \<longrightarrow>
               crawl_step arun ok b max_depth t = t\<lparr>queue := rest\<rparr>) \<and>
            (u \<notin> visited t \<and> d \<le> max_depth \<longrightarrow>
               visited (crawl_step arun ok b max_depth t) = insert u (visited t) \<and>
               calls (crawl_step arun ok b max_depth t) =
                 calls t @ [(u, d, arun (map fst (calls t)) u)]))"
proof -
  from scrape_run_inv(1)[OF assms]
  have "distinct (map fst (calls s))" and "\<forall>c\<in>set (calls s). fst (snd c) \<le> max_depth"
    and "visited s = set (map fst (calls s))"
    by (simp_all add: crawl_inv_def)
  moreover have "\<forall>t u d rest. queue t = (u, d) # rest \<longrightarrow>
            (u \<in> visited t \<or> max_depth < d \<longrightarrow>
               crawl_step arun ok b max_depth t = t\<lparr>queue := rest\<rparr>) \<and>
            (u \<notin> visited t \<and> d \<le> max_depth \<longrightarrow>
               visited (crawl_step arun ok b max_depth t) = insert u (visited t) \<and>
               calls (crawl_step arun ok b max_depth t) =
                 calls t @ [(u, d, arun (map fst (calls t)) u)])"
  proof (intro allI impI conjI)
    fix t :: crawl_state and u d rest
    assume "queue t = (u, d) # rest" and "u \<in> visited t \<or> max_depth < d"
    then show "crawl_step arun ok b max_depth t = t\<lparr>queue := rest\<rparr>"
      by (rule crawl_step_skip)
  next
    fix t :: crawl_state and u d rest
    assume "queue t = (u, d) # rest" and "u \<notin> visited t \<and> d \<le> max_depth"
    then show "visited (crawl_step arun ok b max_depth t) = insert u (visited t)"
      by (intro crawl_step_visited) auto
  next
    fix t :: crawl_state and u d rest
    assume "queue t = (u, d) # rest" and "u \<notin> visited t \<and> d \<le> max_depth"
    then show "calls (crawl_step arun ok b max_depth t) =
                 calls t @ [(u, d, arun (map fst (calls t)) u)]"
      by (intro crawl_step_calls) auto
  qed
  ultimately show ?thesis by blast
qed

theorem scrape_fetches_once_within_depth_witness:
  "scrape_run diamond (\<lambda>_. True) ''http://a.com/x'' 1 =
     Inr (scrape_loop diamond (\<lambda>_. True) (Some ''http://a.com/x'') 1 (init_state ''http://a.com/x'')) \<and>
   map fst (calls (scrape_loop diamond (\<lambda>_. True) (Some ''http://a.com/x'') 1 (init_state ''http://a.com/x'')))
     = [''http://a.com/x'', ''http://a.com/x/a'', ''http://a.com/x/b''] \<and>
   distinct (map fst (calls (scrape_loop diamond (\<lambda>_. True) (Some ''http://a.com/x'') 1 (init_state ''http://a.com/x'')))) \<and>
   list_all (\<lambda>c. fst (snd c) \<le> 1)
     (calls (scrape_loop diamond (\<lambda>_. True) (Some ''http://a.com/x'') 1 (init_state ''http://a.com/x''))) \<and>
   crawl_step diamond (\<lambda>_. True) None 1
      \<lparr>queue = [(''http://a.com/x/c'', 2)], visited = {}, results = [], calls = []\<rparr>
     = \<lparr>queue = [], visited = {}, results = [], calls = []\<rparr> \<and>
   visited (crawl_step diamond (\<lambda>_. True) None 1
      \<lparr>queue = [(''http://a.com/q'', 1)], visited = {}, results = [], calls = []\<rparr>)
     = {''http://a.com/q''}"
proof -
  have run: "scrape_run diamond (\<lambda>_. True) ''http://a.com/x'' 1 =
     Inr (scrape_loop diamond (\<lambda>_. True) (Some ''http://a.com/x'') 1 (init_state ''http://a.com/x''))"
    by code_simp
  have trace: "map fst (calls (scrape_loop diamond (\<lambda>_. True) (Some ''http://a.com/x'') 1 (init_state ''http://a.com/x'')))
     = [''http://a.com/x'', ''http://a.com/x/a'', ''http://a.com/x/b'']"
    by code_simp
  note inst = scrape_fetches_once_within_depth[OF run, of None]
  have skip: "crawl_step diamond (\<lambda>_. True) None 1
      \<lparr>queue = [(''http://a.com/x/c'', 2)], visited = {}, results = [], calls = []\<rparr>
     = \<lparr>queue = [], visited = {}, results = [], calls = []\<rparr>"
    using inst by simp
  have ins: "visited (crawl_step diamond (\<lambda>_. True) None 1
      \<lparr>queue = [(''http://a.com/q'', 1)], visited = {}, results = [], calls = []\<rparr>)
     = {''http://a.com/q''}"
    using inst by simp
  show ?thesis using run trace inst skip ins by (simp add: list_all_iff)
qed

text \<open>
  C2. The traversal loop is a total function: its termination is proved above for every
  crawler, whatever links it reports, so also for every finite link graph with cycles.
  When the start URL can be normalized, \<open>scrape\<close> returns the result dictionary of
  the final state; there the queue is empty and the size of the visited set is the
  number of entries of the dictionary (whose keys are distinct) plus the number of
  fetches that raised or reported failure.
\<close>

theorem scrape_terminates_and_counts:
  assumes "normalize_url ok start_url = Inr base"
  shows "\<exists>s. scrape_run arun ok start_url max_depth = Inr s \<and>
           scrape arun ok start_url max_depth = Inr (results s) \<and>
           queue s = [] \<and> finite (visited s) \<and> distinct (map fst (results s)) \<and>
           card (visited s) =
             length (results s) + length (filter (\<lambda>c. \<not> succeeded (snd (snd c))) (calls s))"
proof -
  define s where "s = scrape_loop arun ok (Some base) max_depth (init_state base)"
  have run: "scrape_run arun ok start_url max_depth = Inr s"
    using assms by (simp add: scrape_run_def s_def)
  have inv: "crawl_inv max_depth s" and emp: "queue s = []"
    using scrape_run_inv[OF run] by simp_all
  have vis: "visited s = set (map fst (calls s))" and dis: "distinct (map fst (calls s))"
    and res: "results s = concat (map recorded (calls s))"
    using inv by (simp_all add: crawl_inv_def)
  have "card (visited s) = length (calls s)"
    using vis dis distinct_card[of "map fst (calls s)"] by simp
  then have cnt: "card (visited s) =
      length (results s) + length (filter (\<lambda>c. \<not> succeeded (snd (snd c))) (calls s))"
    using recorded_length[of "calls s"] res by simp
  have "distinct (map fst (results s))"
    using recorded_distinct[OF dis] res by simp
  moreover have "finite (visited s)" using vis by simp
  moreover have "scrape arun ok start_url max_depth = Inr (results s)"
    using run by (simp add: scrape_def)
  ultimately show ?thesis using run emp cnt by blast
qed

theorem scrape_terminates_and_counts_witness:
  "normalize_url (\<lambda>_. True) ''http://a.com/x/#top'' = Inr ''http://a.com/x'' \<and>
   (\<exists>s. scrape_run diamond (\<lambda>_. True) ''http://a.com/x/#top'' 3 = Inr s \<and>
        queue s = [] \<and> card (visited s) = 5 \<and> length (results s) = 4 \<and>
        length (filter (\<lambda>c. \<not> succeeded (snd (snd c))) (calls s)) = 1 \<and>
        card (visited s) =
          length (results s) + length (filter (\<lambda>c. \<not> succeeded (snd (snd c))) (calls s)))"
proof -
  have n: "normalize_url (\<lambda>_. True) ''http://a.com/x/#top'' = Inr ''http://a.com/x''"
    by code_simp
  define s where "s = scrape_loop diamond (\<lambda>_. True) (Some ''http://a.com/x'') 3 (init_state ''http://a.com/x'')"
  have run: "scrape_run diamond (\<lambda>_. True) ''http://a.com/x/#top'' 3 = Inr s"
    by (simp add: scrape_run_def n s_def)
  have c: "card (visited s) = 5" unfolding s_def by code_simp
  have r: "length (results s) = 4" unfolding s_def by code_simp
  from scrape_terminates_and_counts[OF n, of diamond 3] run
  have "queue s = [] \<and> card (visited s) =
          length (results s) + length (filter (\<lambda>c. \<not> succeeded (snd (snd c))) (calls s))"
    by auto
  then show ?thesis using n run c r by auto
qed



text \<open>
  C10. Take a state that the loop reaches and that is about to fetch \<open>u\<close>, and let the
  fetch succeed with result \<open>res\<close>. Whatever the links of \<open>res\<close> are, so also when
  reading, joining or normalizing one of them raises, the iteration appends
  \<open>(u, res)\<close> to the dictionary and leaves the rest of the queue in place, followed by
  what the link loop appended. The entry is still there, unchanged, in the dictionary
  that \<open>scrape\<close> returns, and every entry of the rest of the queue that is not too deep
  is visited before the loop ends.
\<close>

theorem page_kept_when_links_raise:
  assumes "normalize_url ok start_url = Inr base"
    and "t = (crawl_step arun ok (Some base) max_depth ^^ n) (init_state base)"
    and "queue t = (u, d) # rest" and "u \<notin> visited t" and "d \<le> max_depth"
    and "arun (map fst (calls t)) u = Returned res" and "success res"
  shows "results (crawl_step arun ok (Some base) max_depth t) = results t @ [(u, res)] \<and>
         (\<exists>ns. queue (crawl_step arun ok (Some base) max_depth t) = rest @ ns) \<and>
         (\<exists>s. scrape_run arun ok start_url max_depth = Inr s \<and>
              scrape arun ok start_url max_depth = Inr (results s) \<and>
              prefix (results t @ [(u, res)]) (results s) \<and>
              map_of (results s) u = Some res \<and>
              (\<forall>e\<in>set rest. snd e \<le> max_depth \<longrightarrow> fst e \<in> visited s))"
proof -
  let ?step = "crawl_step arun ok (Some base) max_depth"
  define s where "s = scrape_loop arun ok (Some base) max_depth (init_state base)"
  have run: "scrape_run arun ok start_url max_depth = Inr s"
    using assms(1) by (simp add: scrape_run_def s_def)
  have ret: "scrape arun ok start_url max_depth = Inr (results s)"
    using run by (simp add: scrape_def)
  have inv_t: "crawl_inv max_depth t"
    unfolding assms(2) by (intro crawl_inv_funpow crawl_inv_init)
  have inv_s: "crawl_inv max_depth s"
    using scrape_run_inv(1)[OF run] .
  have fresh: "u \<notin> fst ` set (results t)"
    using inv_t assms(4) recorded_keys[of "calls t"] by (auto simp: crawl_inv_def)
  have r1: "results (?step t) = results t @ [(u, res)]"
    using crawl_step_results[OF assms(3,4,5) fresh, of arun ok "Some base"] assms(6,7)
    by (simp add: recorded_def)
  have r2: "\<exists>ns. queue (?step t) = rest @ ns"
    using crawl_step_queue[OF assms(3), of arun ok "Some base" max_depth] by blast
  have s_t: "s = scrape_loop arun ok (Some base) max_depth (?step t)"
    unfolding s_def assms(2) by (simp add: scrape_loop_funpow scrape_loop_step)
  have pre: "prefix (results t @ [(u, res)]) (results s)"
    unfolding s_t using scrape_loop_results_prefix[OF crawl_inv_step[OF inv_t], of arun ok "Some base" arun ok "Some base"] r1
    by simp
  have "(u, res) \<in> set (results s)"
    using pre by (auto simp: prefix_def)
  moreover have "distinct (map fst (results s))"
    using inv_s recorded_distinct by (simp add: crawl_inv_def)
  ultimately have look: "map_of (results s) u = Some res" by simp
  have "\<forall>e\<in>set rest. snd e \<le> max_depth \<longrightarrow> fst e \<in> visited s"
  proof (intro ballI impI)
    fix e assume "e \<in> set rest" and "snd e \<le> max_depth"
    moreover obtain ns where "queue (?step t) = rest @ ns" using r2 by blast
    ultimately show "fst e \<in> visited s"
      unfolding s_t by (intro queue_processed) auto
  qed
  with r1 r2 run ret pre look show ?thesis by blast
qed

theorem page_kept_when_links_raise_witness:
  "normalize_url (\<lambda>_. True) ''http://a.com/x'' = Inr ''http://a.com/x'' \<and>
   snd (process_links (\<lambda>_. True) (Some ''http://a.com/x'') ''http://a.com/x'' 0 {''http://a.com/x''}
          [Href ''/x/a'', NoHref, Href ''/x/b''] []) = Some KeyError \<and>
   results (crawl_step broken (\<lambda>_. True) (Some ''http://a.com/x'') 1 (init_state ''http://a.com/x''))
     = [(''http://a.com/x'',
         \<lparr>success = True, internal = [Href ''/x/a'', NoHref, Href ''/x/b''], external = [], markdown = []\<rparr>)] \<and>
   (\<exists>s. scrape_run broken (\<lambda>_. True) ''http://a.com/x'' 1 = Inr s \<and>
        map fst (calls s) = [''http://a.com/x'', ''http://a.com/x/a''] \<and>
        map_of (results s) ''http://a.com/x'' =
          Some \<lparr>success = True, internal = [Href ''/x/a'', NoHref, Href ''/x/b''], external = [], markdown = []\<rparr>)"
proof -
  let ?res = "\<lparr>success = True, internal = [Href ''/x/a'', NoHref, Href ''/x/b''], external = [], markdown = []\<rparr>"
  have n: "normalize_url (\<lambda>_. True) ''http://a.com/x'' = Inr ''http://a.com/x''"
    by code_simp
  have k: "snd (process_links (\<lambda>_. True) (Some ''http://a.com/x'') ''http://a.com/x'' 0 {''http://a.com/x''}
          [Href ''/x/a'', NoHref, Href ''/x/b''] []) = Some KeyError"
    by code_simp
  define s where "s = scrape_loop broken (\<lambda>_. True) (Some ''http://a.com/x'') 1 (init_state ''http://a.com/x'')"
  have run: "scrape_run broken (\<lambda>_. True) ''http://a.com/x'' 1 = Inr s"
    by (simp add: scrape_run_def n s_def)
  have c: "map fst (calls s) = [''http://a.com/x'', ''http://a.com/x/a'']"
    unfolding s_def by code_simp
  have t0: "init_state ''http://a.com/x'' =
      (crawl_step broken (\<lambda>_. True) (Some ''http://a.com/x'') 1 ^^ 0) (init_state ''http://a.com/x'')"
    by simp
  have q: "queue (init_state ''http://a.com/x'') = (''http://a.com/x'', 0) # []"
    and v: "''http://a.com/x'' \<notin> visited (init_state ''http://a.com/x'')"
    and f: "broken (map fst (calls (init_state ''http://a.com/x''))) ''http://a.com/x'' = Returned ?res"
    by (simp_all add: init_state_def broken_def page_def)
  from page_kept_when_links_raise[OF n t0 q v _ f] run
  have "results (crawl_step broken (\<lambda>_. True) (Some ''http://a.com/x'') 1 (init_state ''http://a.com/x''))
          = results (init_state ''http://a.com/x'') @ [(''http://a.com/x'', ?res)]"
    and "map_of (results s) ''http://a.com/x'' = Some ?res"
    by auto
  then show ?thesis using n k run c by (simp add: init_state_def)
qed

text \<open>
  C4. The claim says that in the site where the start page links to \<open>a\<close> and \<open>b\<close> and
  both link to \<open>c\<close>, \<open>c\<close> is enqueued once. The visited set is the only thing the link
  loop consults, and \<open>c\<close> is not visited before it is dequeued: after the iterations of
  the start page, \<open>a\<close> and \<open>b\<close> the queue holds \<open>c\<close> twice.
\<close>

theorem shared_page_enqueued_once_counterexample:
  "queue ((crawl_step diamond (\<lambda>_. True) (Some ''http://a.com/x'') 2 ^^ 3)
            (init_state ''http://a.com/x''))
     = [(''http://a.com/x/c'', 2), (''http://a.com/x/c'', 2)]"
  by code_simp

text \<open>
  C4, amended. The traversal is breadth-first: the pages are fetched in order of
  non-decreasing depth, so a page fetched at a greater depth is fetched after every page
  fetched at a smaller one, and each URL is fetched once, however often it was
  enqueued.
\<close>

theorem scrape_breadth_first:
  assumes "scrape_run arun ok start_url max_depth = Inr s"
  shows "sorted (map (\<lambda>c. fst (snd c)) (calls s)) \<and> distinct (map fst (calls s)) \<and>
         (\<forall>i j. i < length (calls s) \<and> j < length (calls s) \<and>
                 fst (snd (calls s ! i)) < fst (snd (calls s ! j)) \<longrightarrow> i < j)"
proof -
  from assms obtain base where s: "s = scrape_loop arun ok (Some base) max_depth (init_state base)"
    by (auto simp: scrape_run_Inr)
  have "bfs_inv s" unfolding s by (intro bfs_inv_loop bfs_inv_init)
  then have srt: "sorted (map (\<lambda>c. fst (snd c)) (calls s))" by (simp add: bfs_inv_def)
  have dis: "distinct (map fst (calls s))"
    using scrape_run_inv(1)[OF assms] by (simp add: crawl_inv_def)
  have "\<forall>i j. i < length (calls s) \<and> j < length (calls s) \<and>
                 fst (snd (calls s ! i)) < fst (snd (calls s ! j)) \<longrightarrow> i < j"
  proof (intro allI impI)
    fix i j
    assume h: "i < length (calls s) \<and> j < length (calls s) \<and>
                 fst (snd (calls s ! i)) < fst (snd (calls s ! j))"
    show "i < j"
    proof (rule ccontr)
      assume "\<not> i < j"
      then have "j \<le> i" by simp
      with srt h have "map (\<lambda>c. fst (snd c)) (calls s) ! j \<le> map (\<lambda>c. fst (snd c)) (calls s) ! i"
        by (intro sorted_nth_mono) auto
      with h show False by simp
    qed
  qed
  with srt dis show ?thesis by blast
qed

theorem scrape_breadth_first_witness:
  "\<exists>s. scrape_run diamond (\<lambda>_. True) ''http://a.com/x'' 2 = Inr s \<and>
       map (\<lambda>c. (fst c, fst (snd c))) (calls s) =
         [(''http://a.com/x'', 0), (''http://a.com/x/a'', 1), (''http://a.com/x/b'', 1),
          (''http://a.com/x/c'', 2)] \<and>
       sorted (map (\<lambda>c. fst (snd c)) (calls s)) \<and> distinct (map fst (calls s))"
proof -
  define s where "s = scrape_loop diamond (\<lambda>_. True) (Some ''http://a.com/x'') 2 (init_state ''http://a.com/x'')"
  have run: "scrape_run diamond (\<lambda>_. True) ''http://a.com/x'' 2 = Inr s"
    unfolding s_def by code_simp
  have c: "map (\<lambda>c. (fst c, fst (snd c))) (calls s) =
         [(''http://a.com/x'', 0), (''http://a.com/x/a'', 1), (''http://a.com/x/b'', 1),
          (''http://a.com/x/c'', 2)]"
    unfolding s_def by code_simp
  from scrape_breadth_first[OF run]
  have a: "sorted (map (\<lambda>c. fst (snd c)) (calls s))" and b: "distinct (map fst (calls s))"
    by blast+
  show ?thesis by (intro exI[of _ s] conjI run c a b)
qed

text \<open>
  C7. The claim says that the crawl entry point fails for a negative depth. \<open>scrape\<close>
  has no such check: called with depth -1 on a good URL it returns the empty
  dictionary.
\<close>

theorem scrape_negative_depth_counterexample:
  "scrape diamond (\<lambda>_. True) ''http://a.com/x'' (- 1) = Inr []"
  by code_simp

text \<open>
  C7, amended. The check stands in \<open>scrapper_tool\<close>, before anything else: for every
  start URL and every negative depth it raises \<open>ValueError\<close> and nothing outside the
  program has happened. \<open>scrape\<close> called with a negative depth fetches nothing: its run
  ends with no call of the crawler and an empty dictionary, which it returns when the
  start URL can be normalized.
\<close>

theorem scrapper_tool_rejects_negative_depth:
  assumes "depth < 0"
  shows "scrapper_tool w start_url depth = ([], Inl ValueError) \<and>
         (\<forall>s. scrape_run arun ok start_url depth = Inr s \<longrightarrow> calls s = [] \<and> results s = []) \<and>
         (\<forall>base. normalize_url ok start_url = Inr base \<longrightarrow>
            scrape arun ok start_url depth = Inr [])"
proof -
  have a: "scrapper_tool w start_url depth = ([], Inl ValueError)"
    using assms by (simp add: scrapper_tool_def)
  have b: "\<forall>s. scrape_run arun ok start_url depth = Inr s \<longrightarrow> calls s = [] \<and> results s = []"
    using assms by (auto simp: scrape_run_Inr scrape_loop_negative_depth)
  have c: "\<forall>base. normalize_url ok start_url = Inr base \<longrightarrow>
            scrape arun ok start_url depth = Inr []"
    using assms by (simp add: scrape_def scrape_run_def scrape_loop_negative_depth)
  from a b c show ?thesis by blast
qed

theorem scrapper_tool_rejects_negative_depth_witness:
  "(- 1 :: int) < 0 \<and>
   scrapper_tool online ''http://a.com/x'' (- 1) = ([], Inl ValueError) \<and>
   scrapper_tool online ''not a url'' (- 1) = ([], Inl ValueError) \<and>
   scrape diamond (\<lambda>_. True) ''http://a.com/x'' (- 1) = Inr []"
proof -
  have neg: "(- 1 :: int) < 0" by simp
  have n: "normalize_url (\<lambda>_. True) ''http://a.com/x'' = Inr ''http://a.com/x''"
    by code_simp
  from scrapper_tool_rejects_negative_depth[OF neg, of online "''http://a.com/x''" diamond "\<lambda>_. True"] n
  have "scrapper_tool online ''http://a.com/x'' (- 1) = ([], Inl ValueError)"
    and "scrape diamond (\<lambda>_. True) ''http://a.com/x'' (- 1) = Inr []"
    by simp_all
  moreover from scrapper_tool_rejects_negative_depth[OF neg, of online "''not a url''"]
  have "scrapper_tool online ''not a url'' (- 1) = ([], Inl ValueError)"
    by simp
  ultimately show ?thesis by simp
qed



text \<open>
  C6. The claim says that a link is rejected when its host differs from the root's and
  accepted when none of the listed reasons applies. The code compares the whole netloc,
  which includes the port and the user information: a link to another port of the same
  host, with a path under the root's, is rejected.
\<close>

theorem same_host_other_port_counterexample:
  "urlparse (\<lambda>_. True) ''http://a.com/x'' [] =
     Inr \<lparr>scheme = ''http'', netloc = ''a.com'', path = ''/x'', params = [], query = [], fragment = []\<rparr> \<and>
   urlparse (\<lambda>_. True) ''http://a.com:8080/x/y'' [] =
     Inr \<lparr>scheme = ''http'', netloc = ''a.com:8080'', path = ''/x/y'', params = [], query = [], fragment = []\<rparr> \<and>
   hostname ''a.com:8080'' = hostname ''a.com'' \<and>
   startswith ''/x/y'' ''/x'' \<and>
   \<not> is_valid_internal_link (\<lambda>_. True) (Some ''http://a.com/x'') ''http://a.com:8080/x/y''"
  by code_simp

text \<open>
  C6, amended. \<open>is_valid_internal_link\<close> is a total function to the booleans, so it
  never raises. It is true exactly when the link is not empty, does not start with
  \<open>#\<close>, the root is set, root and link both parse, their netlocs are equal, and the
  path of the link is neither empty nor \<open>/\<close> and starts with the path of the root.
\<close>

theorem is_valid_internal_link_iff:
  "is_valid_internal_link ok root link \<longleftrightarrow>
     link \<noteq> [] \<and> \<not> startswith link ''#'' \<and>
     (\<exists>base pb pl. root = Some base \<and> urlparse ok base [] = Inr pb \<and>
        urlparse ok link [] = Inr pl \<and> netloc pl = netloc pb \<and>
        path pl \<noteq> [] \<and> path pl \<noteq> ''/'' \<and> startswith (path pl) (path pb))"
  by (auto simp: is_valid_internal_link_def split: option.splits sum.splits)

theorem is_valid_internal_link_iff_witness:
  "is_valid_internal_link (\<lambda>_. True) (Some ''https://docs.example.com/help'')
     ''https://docs.example.com/help/features'' \<and>
   \<not> is_valid_internal_link (\<lambda>_. True) (Some ''https://docs.example.com/help'') ''#top'' \<and>
   \<not> is_valid_internal_link (\<lambda>_. True) (Some ''https://docs.example.com/help'') [] \<and>
   \<not> is_valid_internal_link (\<lambda>_. True) (Some ''https://docs.example.com/help'')
       ''https://other.com/help/features'' \<and>
   \<not> is_valid_internal_link (\<lambda>_. True) (Some ''https://docs.example.com/help'')
       ''https://docs.example.com/'' \<and>
   \<not> is_valid_internal_link (\<lambda>_. True) (Some ''https://docs.example.com/help'')
       ''https://[docs.example.com/help/x'' \<and>
   \<not> is_valid_internal_link (\<lambda>_. True) None ''https://docs.example.com/help/features''"
proof -
  have pb: "urlparse (\<lambda>_. True) ''https://docs.example.com/help'' [] =
     Inr \<lparr>scheme = ''https'', netloc = ''docs.example.com'', path = ''/help'', params = [], query = [], fragment = []\<rparr>"
    by code_simp
  have p1: "urlparse (\<lambda>_. True) ''https://docs.example.com/help/features'' [] =
     Inr \<lparr>scheme = ''https'', netloc = ''docs.example.com'', path = ''/help/features'', params = [], query = [], fragment = []\<rparr>"
    by code_simp
  have p2: "urlparse (\<lambda>_. True) ''https://other.com/help/features'' [] =
     Inr \<lparr>scheme = ''https'', netloc = ''other.com'', path = ''/help/features'', params = [], query = [], fragment = []\<rparr>"
    by code_simp
  have p3: "urlparse (\<lambda>_. True) ''https://docs.example.com/'' [] =
     Inr \<lparr>scheme = ''https'', netloc = ''docs.example.com'', path = ''/'', params = [], query = [], fragment = []\<rparr>"
    by code_simp
  have p4: "urlparse (\<lambda>_. True) ''https://[docs.example.com/help/x'' [] = Inl ValueError"
    by code_simp
  show ?thesis
    unfolding is_valid_internal_link_iff
    by (simp add: pb p1 p2 p3 p4 startswith_def)
qed

end
